theory Spec2Isabelle
  imports Main
begin

section \<open>The singly-linked list of \<open>pkg/data/list.go\<close>\<close>

text \<open>
  The Go package keeps a chain of heap-allocated \<open>ListNode\<close> cells and a \<open>List\<close> header
  with pointers to the first and the last cell and a length counter. Several claims are
  about the pointer structure itself (the header's tail pointer, the links, aliasing of
  \<open>parent\<close> and \<open>found\<close>), so the cells live in an explicit store: a list of nodes, a
  pointer being \<open>None\<close> (Go's \<open>nil\<close>) or \<open>Some a\<close> with \<open>a\<close> the index of the cell.
  A composite literal \<open>&ListNode[T]{...}\<close> appends a cell to the store, so its address
  is fresh. Cells are never removed from the store: an unlinked cell is merely
  unreachable, as under Go's garbage collector.

  The element type \<open>T\<close> is the type variable \<open>'a\<close>; its \<open>==\<close> is HOL equality, its
  \<open>String()\<close> method and its zero value are parameters of the operations that use them.
  The field \<open>length\<close> is a Go \<open>int\<close>; it counts allocated cells, of which there are far
  fewer than \<open>2^63\<close>, so it is modelled by \<open>int\<close>.

  The model is sequential: the \<open>RWMutex\<close> is created by \<open>NewList\<close> and never reassigned,
  every method releases the lock it took, and so \<open>Lock\<close>/\<open>Unlock\<close> leave no trace in the
  state. What remains of \<open>list.mux.Lock()\<close> is the read of the field \<open>mux\<close> through the
  receiver, which panics when the receiver is \<open>nil\<close>.
\<close>

subsection \<open>Data\<close>

record 'a ListNode =
  node_value :: 'a
  node_next :: "nat option"

type_synonym 'a heap = "'a ListNode list"

record 'a List =
  head :: "nat option"
  tail :: "nat option"
  lengthF :: int

text \<open>The node store together with the header a non-nil receiver points to.\<close>

record 'a state =
  nodes :: "'a heap"
  lst :: "'a List"

text \<open>
  \<open>ErrorValue\<close> is an \<open>error\<close> built by \<open>errors.New\<close> and returned to the caller;
  \<open>RuntimePanic\<close> is a Go run-time panic, which no method of the package recovers.
\<close>

datatype error = ErrorValue string | RuntimePanic string

definition nil_dereference :: error where
  "nil_dereference = RuntimePanic ''invalid memory address or nil pointer dereference''"


definition alloc :: "'a heap \<Rightarrow> 'a ListNode \<Rightarrow> 'a heap \<times> nat" where
  "alloc h n = (h @ [n], length h)"

subsection \<open>Construction and accessors\<close>

definition NewList :: "'a heap \<Rightarrow> 'a state" where
  "NewList h = \<lparr>nodes = h, lst = \<lparr>head = None, tail = None, lengthF = 0\<rparr>\<rparr>"

definition Head :: "'a state option \<Rightarrow> nat option" where
  "Head r = (case r of None \<Rightarrow> None | Some s \<Rightarrow> head (lst s))"

definition Tail :: "'a state option \<Rightarrow> nat option" where
  "Tail r = (case r of None \<Rightarrow> None | Some s \<Rightarrow> tail (lst s))"

definition Value :: "'a heap \<Rightarrow> 'a \<Rightarrow> nat option \<Rightarrow> 'a \<times> bool" where
  "Value h unset listNode =
     (case listNode of None \<Rightarrow> (unset, False) | Some a \<Rightarrow> (node_value (h ! a), True))"

definition Next :: "'a heap \<Rightarrow> nat option \<Rightarrow> nat option" where
  "Next h listNode = (case listNode of None \<Rightarrow> None | Some a \<Rightarrow> node_next (h ! a))"

subsection \<open>Insertion\<close>

definition Insert :: "'a state option \<Rightarrow> 'a \<Rightarrow> error + 'a state" where
  "Insert r v =
     (case r of
        None \<Rightarrow> Inl (ErrorValue ''list is nil'')
      | Some s \<Rightarrow>
          let l = lst s;
              (h1, listNode) = alloc (nodes s) \<lparr>node_value = v, node_next = head l\<rparr>;
              l1 = (if tail l = None then l\<lparr>tail := Some listNode\<rparr> else l);
              l2 = l1\<lparr>head := Some listNode\<rparr>;
              l3 = l2\<lparr>lengthF := lengthF l2 + 1\<rparr>
          in Inr \<lparr>nodes = h1, lst = l3\<rparr>)"

definition Append :: "'a state option \<Rightarrow> 'a \<Rightarrow> error + 'a state" where
  "Append r v =
     (case r of
        None \<Rightarrow> Inl (ErrorValue ''list is nil'')
      | Some s \<Rightarrow>
          let l = lst s;
              (h1, listNode) = alloc (nodes s) \<lparr>node_value = v, node_next = None\<rparr>;
              (h2, l1) =
                (case tail l of
                   None \<Rightarrow> (h1, l\<lparr>tail := Some listNode, head := Some listNode\<rparr>)
                 | Some t \<Rightarrow>
                     (h1[t := (h1 ! t)\<lparr>node_next := Some listNode\<rparr>],
                      l\<lparr>tail := Some listNode\<rparr>));
              l2 = l1\<lparr>lengthF := lengthF l1 + 1\<rparr>
          in Inr \<lparr>nodes = h2, lst = l2\<rparr>)"

subsection \<open>Search and deletion\<close>

text \<open>
  The loop of \<open>findParent\<close>. It follows the links until \<open>nil\<close> or a match, so on a
  cyclic chain without a match it does not return: the value \<open>None\<close> of the option
  monad stands for that.
\<close>

partial_function (option) findParent_loop ::
  "'a heap \<Rightarrow> 'a \<Rightarrow> nat option \<Rightarrow> nat option \<Rightarrow> (nat option \<times> nat option) option" where
  "findParent_loop h v lastNode currentNode =
     (case currentNode of
        None \<Rightarrow> Some (None, None)
      | Some c \<Rightarrow>
          if node_value (h ! c) = v then Some (lastNode, Some c)
          else findParent_loop h v (Some c) (node_next (h ! c)))"

definition findParent :: "'a state option \<Rightarrow> 'a \<Rightarrow> (nat option \<times> nat option) option" where
  "findParent r v =
     (case r of
        None \<Rightarrow> Some (None, None)
      | Some s \<Rightarrow> findParent_loop (nodes s) v None (head (lst s)))"

definition Find :: "'a state option \<Rightarrow> 'a \<Rightarrow> (error + nat option) option" where
  "Find r v =
     (case r of
        None \<Rightarrow> Some (Inl nil_dereference)
      | Some s \<Rightarrow>
          (case findParent r v of
             None \<Rightarrow> None
           | Some (parent, found) \<Rightarrow> Some (Inr found)))"

definition Delete :: "'a state option \<Rightarrow> 'a \<Rightarrow> (error + 'a state \<times> bool) option" where
  "Delete r v =
     (case r of
        None \<Rightarrow> Some (Inl nil_dereference)
      | Some s \<Rightarrow>
          (case findParent r v of
             None \<Rightarrow> None
           | Some (parent, found) \<Rightarrow>
               (case found of
                  None \<Rightarrow> Some (Inr (s, False))
                | Some f \<Rightarrow>
                    let h = nodes s; l = lst s;
                        h1 = (case parent of
                                None \<Rightarrow> h
                              | Some p \<Rightarrow> h[p := (h ! p)\<lparr>node_next := node_next (h ! f)\<rparr>]);
                        l1 = (if head l = Some f then l\<lparr>head := node_next (h1 ! f)\<rparr> else l);
                        l2 = (if tail l1 = Some f then l1\<lparr>tail := parent\<rparr> else l1);
                        l3 = l2\<lparr>lengthF := lengthF l2 - 1\<rparr>
                    in Some (Inr (\<lparr>nodes = h1, lst = l3\<rparr>, True)))))"

definition DeleteHead :: "'a state option \<Rightarrow> 'a \<Rightarrow> error + 'a state \<times> 'a \<times> bool" where
  "DeleteHead r unset =
     (case r of
        None \<Rightarrow> Inl nil_dereference
      | Some s \<Rightarrow>
          let h = nodes s; l = lst s in
          (case head l of
             None \<Rightarrow> Inr (s, unset, False)
           | Some a \<Rightarrow>
               let v = node_value (h ! a);
                   l1 = l\<lparr>head := node_next (h ! a)\<rparr>;
                   l2 = (if head l1 = None then l1\<lparr>tail := None\<rparr> else l1);
                   l3 = l2\<lparr>lengthF := lengthF l2 - 1\<rparr>
               in Inr (\<lparr>nodes = h, lst = l3\<rparr>, v, True)))"

text \<open>
  The scan of \<open>DeleteTail\<close> for the predecessor of the tail: it visits every cell and
  remembers the last one whose link is the tail pointer.
\<close>

partial_function (option) DeleteTail_loop ::
  "'a heap \<Rightarrow> nat option \<Rightarrow> nat option \<Rightarrow> nat option \<Rightarrow> nat option option" where
  "DeleteTail_loop h tailp parent node =
     (case node of
        None \<Rightarrow> Some parent
      | Some a \<Rightarrow>
          DeleteTail_loop h tailp
            (if node_next (h ! a) = tailp then Some a else parent) (node_next (h ! a)))"

definition DeleteTail :: "'a state option \<Rightarrow> 'a \<Rightarrow> (error + 'a state \<times> 'a \<times> bool) option" where
  "DeleteTail r unset =
     (case r of
        None \<Rightarrow> Some (Inl nil_dereference)
      | Some s \<Rightarrow>
          let h = nodes s; l = lst s in
          (case tail l of
             None \<Rightarrow> Some (Inr (s, unset, False))
           | Some t \<Rightarrow>
               let v = node_value (h ! t) in
               (case DeleteTail_loop h (tail l) None (head l) of
                  None \<Rightarrow> None
                | Some parent \<Rightarrow>
                    let (h1, l1) =
                          (case parent of
                             None \<Rightarrow> (h, l\<lparr>head := None, tail := None\<rparr>)
                           | Some p \<Rightarrow>
                               (h[p := (h ! p)\<lparr>node_next := None\<rparr>], l\<lparr>tail := Some p\<rparr>));
                        l2 = l1\<lparr>lengthF := lengthF l1 - 1\<rparr>
                    in Some (Inr (\<lparr>nodes = h1, lst = l2\<rparr>, v, True)))))"

subsection \<open>Iteration and rendering\<close>

text \<open>
  The visitor \<open>f\<close> is a Go closure called for its effect; here it transforms a visitor
  state \<open>'v\<close>. The loop of \<open>ForEach\<close> tests \<open>currentNode\<close> and calls \<open>f\<close>, and
  assigns nothing to \<open>currentNode\<close>.
\<close>

partial_function (option) ForEach_loop ::
  "'a heap \<Rightarrow> ('a \<Rightarrow> 'v \<Rightarrow> 'v) \<Rightarrow> nat option \<Rightarrow> 'v \<Rightarrow> 'v option" where
  "ForEach_loop h f currentNode acc =
     (case currentNode of
        None \<Rightarrow> Some acc
      | Some c \<Rightarrow> ForEach_loop h f currentNode (f (node_value (h ! c)) acc))"

definition ForEach :: "'a state option \<Rightarrow> ('a \<Rightarrow> 'v \<Rightarrow> 'v) \<Rightarrow> 'v \<Rightarrow> (error + 'v) option" where
  "ForEach r f acc =
     (case r of
        None \<Rightarrow> Some (Inl nil_dereference)
      | Some s \<Rightarrow>
          (case ForEach_loop (nodes s) f (head (lst s)) acc of
             None \<Rightarrow> None
           | Some acc' \<Rightarrow> Some (Inr acc')))"

text \<open>The first loop of \<open>String\<close>: the values of the cells from \<open>currentNode\<close> on.\<close>

partial_function (option) String_loop ::
  "'a heap \<Rightarrow> nat option \<Rightarrow> 'a list \<Rightarrow> 'a list option" where
  "String_loop h currentNode vals =
     (case currentNode of
        None \<Rightarrow> Some vals
      | Some c \<Rightarrow> String_loop h (node_next (h ! c)) (vals @ [node_value (h ! c)]))"




text \<open>
  The head-to-tail walk itself, as the first loop of \<open>String\<close> performs it from
  \<open>list.head\<close> (and as a caller does with \<open>Head\<close>, \<open>Next\<close> and \<open>Value\<close>): the
  values in traversal order, or \<open>None\<close> if the walk never reaches \<open>nil\<close>.
\<close>

definition traversal :: "'a state \<Rightarrow> 'a list option" where
  "traversal s = String_loop (nodes s) (head (lst s)) []"


subsection \<open>The structural invariants\<close>

text \<open>
  \<open>follow h p n\<close> follows the links from \<open>p\<close> for at most \<open>n\<close> steps and returns the
  cells it visited if it reached \<open>nil\<close>, and \<open>None\<close> if a cell is left after \<open>n\<close> steps.
\<close>

fun follow :: "'a heap \<Rightarrow> nat option \<Rightarrow> nat \<Rightarrow> nat list option" where
  "follow h None n = Some []"
| "follow h (Some a) 0 = None"
| "follow h (Some a) (Suc n) =
     (case follow h (node_next (h ! a)) n of None \<Rightarrow> None | Some as \<Rightarrow> Some (a # as))"

text \<open>
  The invariants of the data model, as a check that can be run on a state: the walk from
  \<open>head\<close> ends after exactly \<open>length\<close> steps, it visits \<open>length\<close> different cells,
  all of them allocated, the last one is \<open>tail\<close>, and \<open>head\<close>, \<open>tail\<close> are \<open>nil\<close>
  exactly when \<open>length\<close> is 0.
\<close>

definition invariant :: "'a state \<Rightarrow> bool" where
  "invariant s =
     (let h = nodes s; l = lst s in
      0 \<le> lengthF l \<and>
      (case follow h (head l) (nat (lengthF l)) of
         None \<Rightarrow> False
       | Some as \<Rightarrow>
           int (length as) = lengthF l \<and> distinct as \<and> list_all (\<lambda>a. a < length h) as \<and>
           tail l = (if as = [] then None else Some (last as))) \<and>
      ((head l = None) = (lengthF l = 0)) \<and>
      ((lengthF l = 0) = (tail l = None)))"

text \<open>A sequence of the five mutating operations, run on a present list.\<close>

datatype 'a operation =
  OpInsert 'a | OpAppend 'a | OpDelete 'a | OpDeleteHead | OpDeleteTail

text \<open>
  One operation; \<open>None\<close> when the call does not return normally (it panics, returns an
  error or runs forever).
\<close>

definition step :: "'a \<Rightarrow> 'a state \<Rightarrow> 'a operation \<Rightarrow> 'a state option" where
  "step unset s op =
     (case op of
        OpInsert v \<Rightarrow> (case Insert (Some s) v of Inr s' \<Rightarrow> Some s' | Inl e \<Rightarrow> None)
      | OpAppend v \<Rightarrow> (case Append (Some s) v of Inr s' \<Rightarrow> Some s' | Inl e \<Rightarrow> None)
      | OpDelete v \<Rightarrow> (case Delete (Some s) v of Some (Inr (s', b)) \<Rightarrow> Some s' | _ \<Rightarrow> None)
      | OpDeleteHead \<Rightarrow>
          (case DeleteHead (Some s) unset of Inr (s', v, b) \<Rightarrow> Some s' | Inl e \<Rightarrow> None)
      | OpDeleteTail \<Rightarrow>
          (case DeleteTail (Some s) unset of Some (Inr (s', v, b)) \<Rightarrow> Some s' | _ \<Rightarrow> None))"

fun run :: "'a \<Rightarrow> 'a state \<Rightarrow> 'a operation list \<Rightarrow> 'a state option" where
  "run unset s [] = Some s"
| "run unset s (op # ops) =
     (case step unset s op of None \<Rightarrow> None | Some s' \<Rightarrow> run unset s' ops)"

fun Insert_all :: "'a state \<Rightarrow> 'a list \<Rightarrow> error + 'a state" where
  "Insert_all s [] = Inr s"
| "Insert_all s (v # vs) =
     (case Insert (Some s) v of Inl e \<Rightarrow> Inl e | Inr s' \<Rightarrow> Insert_all s' vs)"

fun Append_all :: "'a state \<Rightarrow> 'a list \<Rightarrow> error + 'a state" where
  "Append_all s [] = Inr s"
| "Append_all s (v # vs) =
     (case Append (Some s) v of Inl e \<Rightarrow> Inl e | Inr s' \<Rightarrow> Append_all s' vs)"

subsection \<open>Chains in the store\<close>

text \<open>
  \<open>path h p as q\<close>: the links lead from \<open>p\<close> through exactly the allocated cells \<open>as\<close>
  to \<open>q\<close>. A chain is a path that ends in \<open>nil\<close>.
\<close>

primrec path :: "'a heap \<Rightarrow> nat option \<Rightarrow> nat list \<Rightarrow> nat option \<Rightarrow> bool" where
  "path h p [] q = (p = q)"
| "path h p (a # as) q = (p = Some a \<and> a < length h \<and> path h (node_next (h ! a)) as q)"

abbreviation chain :: "'a heap \<Rightarrow> nat option \<Rightarrow> nat list \<Rightarrow> bool" where
  "chain h p as \<equiv> path h p as None"

definition vals :: "'a heap \<Rightarrow> nat list \<Rightarrow> 'a list" where
  "vals h as = map (\<lambda>a. node_value (h ! a)) as"

text \<open>\<open>rep s as\<close>: the list in state \<open>s\<close> consists of the cells \<open>as\<close>, in this order.\<close>

definition rep :: "'a state \<Rightarrow> nat list \<Rightarrow> bool" where
  "rep s as =
     (chain (nodes s) (head (lst s)) as \<and> int (length as) = lengthF (lst s) \<and>
      tail (lst s) = (if as = [] then None else Some (last as)))"

lemma path_None [simp]: "path h None as q = (as = [] \<and> q = None)"
  by (cases as) auto

lemma path_append: "path h p (xs @ ys) q = (\<exists>r. path h p xs r \<and> path h r ys q)"
  by (induction xs arbitrary: p) auto

lemma path_valid: "path h p as q \<Longrightarrow> a \<in> set as \<Longrightarrow> a < length h"
  by (induction as arbitrary: p) auto

lemma chain_unique: "chain h p as \<Longrightarrow> chain h p bs \<Longrightarrow> as = bs"
proof (induction as arbitrary: p bs)
  case Nil
  then show ?case by simp
next
  case (Cons a as)
  then show ?case by (cases bs) auto
qed

lemma chain_head_fresh:
  assumes "chain h (node_next (h ! a)) as"
  shows "a \<notin> set as"
proof
  assume "a \<in> set as"
  then obtain xs ys where as: "as = xs @ a # ys"
    by (auto simp: in_set_conv_decomp)
  with assms obtain r where "path h r (a # ys) None"
    by (auto simp: path_append)
  then have "chain h (node_next (h ! a)) ys" by simp
  with assms have "as = ys" by (rule chain_unique)
  with as show False by simp
qed

lemma chain_distinct: "chain h p as \<Longrightarrow> distinct as"
  by (induction as arbitrary: p) (auto dest: chain_head_fresh)

lemma path_update:
  "a \<notin> set as \<Longrightarrow> path (h[a := n]) p as q = path h p as q"
  by (induction as arbitrary: p) auto

lemma path_grow: "path h p as q \<Longrightarrow> path (h @ [n]) p as q"
  by (induction as arbitrary: p) (auto simp: nth_append)

lemma vals_update: "a \<notin> set as \<Longrightarrow> vals (h[a := n]) as = vals h as"
  by (induction as) (auto simp: vals_def)

lemma vals_grow: "\<forall>a\<in>set as. a < length h \<Longrightarrow> vals (h @ [n]) as = vals h as"
  by (auto simp: vals_def nth_append)

lemma chain_follow:
  "chain h p as \<Longrightarrow> follow h p n = (if length as \<le> n then Some as else None)"
proof (induction as arbitrary: p n)
  case Nil
  then show ?case by simp
next
  case (Cons a as)
  then show ?case by (cases n) auto
qed

lemma follow_chain:
  "follow h p n = Some as \<Longrightarrow> \<forall>a\<in>set as. a < length h \<Longrightarrow> chain h p as"
proof (induction h p n arbitrary: as rule: follow.induct)
  case (1 h n)
  then show ?case by simp
next
  case (2 h a)
  then show ?case by simp
next
  case (3 h a n)
  then show ?case by (auto split: option.splits)
qed

lemma invariant_rep: "invariant s = (\<exists>as. rep s as)"
proof
  assume inv: "invariant s"
  then obtain as where f: "follow (nodes s) (head (lst s)) (nat (lengthF (lst s))) = Some as"
    by (auto simp: invariant_def Let_def split: option.splits)
  with inv have "rep s as"
    by (auto simp: invariant_def Let_def rep_def list_all_iff intro: follow_chain)
  then show "\<exists>as. rep s as" ..
next
  assume "\<exists>as. rep s as"
  then obtain as where r: "rep s as" ..
  then have c: "chain (nodes s) (head (lst s)) as" by (simp add: rep_def)
  from r have len: "int (length as) = lengthF (lst s)" by (simp add: rep_def)
  from c len have f: "follow (nodes s) (head (lst s)) (nat (lengthF (lst s))) = Some as"
    by (simp add: chain_follow)
  from c have d: "distinct as" by (rule chain_distinct)
  from c have v: "list_all (\<lambda>a. a < length (nodes s)) as"
    by (auto simp: list_all_iff dest: path_valid)
  from c have hd: "(head (lst s) = None) = (as = [])" by (cases as) auto
  from r have tl: "tail (lst s) = (if as = [] then None else Some (last as))" by (simp add: rep_def)
  from len have z: "(lengthF (lst s) = 0) = (as = [])" by auto
  show "invariant s"
    unfolding invariant_def Let_def using f d v hd tl z len by auto
qed

lemma String_loop_chain:
  "chain h p as \<Longrightarrow> String_loop h p acc = Some (acc @ vals h as)"
proof (induction as arbitrary: p acc)
  case Nil
  then show ?case by (simp add: String_loop.simps vals_def)
next
  case (Cons a as)
  then show ?case by (subst String_loop.simps) (simp add: vals_def)
qed

lemma traversal_rep: "rep s as \<Longrightarrow> traversal s = Some (vals (nodes s) as)"
  using String_loop_chain [of "nodes s" "head (lst s)" as "[]"]
  by (simp add: traversal_def rep_def)

lemma findParent_loop_absent:
  "chain h p as \<Longrightarrow> v \<notin> set (vals h as) \<Longrightarrow> findParent_loop h v lastNode p = Some (None, None)"
proof (induction as arbitrary: p lastNode)
  case Nil
  then show ?case by (simp add: findParent_loop.simps)
next
  case (Cons a as)
  then show ?case by (subst findParent_loop.simps) (auto simp: vals_def)
qed

lemma findParent_loop_found:
  "path h p xs (Some f) \<Longrightarrow> v \<notin> set (vals h xs) \<Longrightarrow> node_value (h ! f) = v \<Longrightarrow>
   findParent_loop h v lastNode p = Some (if xs = [] then lastNode else Some (last xs), Some f)"
proof (induction xs arbitrary: p lastNode)
  case Nil
  then show ?case by (subst findParent_loop.simps) simp
next
  case (Cons a xs)
  then show ?case by (subst findParent_loop.simps) (auto simp: vals_def)
qed

lemma DeleteTail_loop_path:
  "path h p xs (Some t) \<Longrightarrow> node_next (h ! t) = None \<Longrightarrow>
   DeleteTail_loop h (Some t) parent p = Some (if xs = [] then parent else Some (last xs))"
proof (induction xs arbitrary: p parent)
  case Nil
  then show ?case
    by (subst DeleteTail_loop.simps) (simp add: DeleteTail_loop.simps)
next
  case (Cons a xs)
  then show ?case by (subst DeleteTail_loop.simps) (cases xs; simp)
qed

lemma ForEach_loop_returns:
  assumes "ForEach_loop h f p acc = Some y"
  shows "p = None"
proof (rule ForEach_loop.raw_induct [where P = "\<lambda>h f p acc y. p = None", OF _ assms], goal_cases)
  case (1 loop h f currentNode acc y)
  show ?case
  proof (cases currentNode)
    case None
    then show ?thesis .
  next
    case (Some c)
    with 1(2) have "loop h f currentNode (f (node_value (h ! c)) acc) = Some y" by simp
    then show ?thesis by (rule 1(1))
  qed
qed

lemma ForEach_loop_diverges: "ForEach_loop h f (Some c) acc = None"
proof (cases "ForEach_loop h f (Some c) acc")
  case None
  then show ?thesis .
next
  case (Some y)
  then have "Some c = (None :: nat option)" by (rule ForEach_loop_returns)
  then show ?thesis by simp
qed

lemma rep_valid: "rep s as \<Longrightarrow> a \<in> set as \<Longrightarrow> a < length (nodes s)"
  by (auto simp: rep_def dest: path_valid)

lemma Insert_rep:
  assumes "rep s as"
  shows "\<exists>s'. Insert (Some s) v = Inr s' \<and> rep s' (length (nodes s) # as) \<and>
           vals (nodes s') (length (nodes s) # as) = v # vals (nodes s) as \<and>
           lengthF (lst s') = lengthF (lst s) + 1"
proof -
  let ?h = "nodes s"
  let ?n = "\<lparr>node_value = v, node_next = head (lst s)\<rparr>"
  from assms have c: "chain (?h @ [?n]) (head (lst s)) as"
    by (simp add: rep_def path_grow)
  from assms have v: "\<forall>a\<in>set as. a < length ?h"
    by (auto dest: rep_valid)
  then have vs: "vals (?h @ [?n]) as = vals ?h as" by (rule vals_grow)
  from assms have t: "(tail (lst s) = None) = (as = [])"
    by (auto simp: rep_def)
  show ?thesis
    using assms c vs t
    by (cases as) (auto simp: Insert_def alloc_def Let_def rep_def vals_def)
qed

lemma Append_rep:
  assumes "rep s as"
  shows "\<exists>s'. Append (Some s) v = Inr s' \<and> rep s' (as @ [length (nodes s)]) \<and>
           vals (nodes s') (as @ [length (nodes s)]) = vals (nodes s) as @ [v] \<and>
           lengthF (lst s') = lengthF (lst s) + 1"
proof (cases as rule: rev_cases)
  case Nil
  with assms show ?thesis
    by (auto simp: Append_def alloc_def Let_def rep_def vals_def)
next
  case (snoc xs t)
  let ?h = "nodes s"
  let ?new = "length ?h"
  let ?h1 = "?h @ [\<lparr>node_value = v, node_next = None\<rparr>]"
  let ?h2 = "?h1[t := (?h1 ! t)\<lparr>node_next := Some ?new\<rparr>]"
  from assms snoc have tl: "tail (lst s) = Some t" by (simp add: rep_def)
  from assms snoc have ch: "chain ?h (head (lst s)) (xs @ [t])" by (simp add: rep_def)
  then have d: "distinct (xs @ [t])" by (rule chain_distinct)
  from ch have tv: "t < length ?h" by (auto dest: path_valid)
  from ch have xv: "\<forall>a\<in>set xs. a < length ?h" by (auto dest: path_valid)
  from ch have px: "path ?h (head (lst s)) xs (Some t)" by (auto simp: path_append)
  then have "path ?h1 (head (lst s)) xs (Some t)" by (rule path_grow)
  with d have px2: "path ?h2 (head (lst s)) xs (Some t)" by (simp add: path_update)
  have pt: "path ?h2 (Some t) [t, ?new] None"
    using tv by (simp add: nth_append)
  from px2 pt have c2: "chain ?h2 (head (lst s)) (xs @ [t, ?new])"
    by (auto simp: path_append)
  have vx: "vals ?h2 xs = vals ?h xs"
    using d xv by (simp add: vals_update vals_grow)
  have vt: "vals ?h2 [t, ?new] = [node_value (?h ! t), v]"
    using tv by (simp add: vals_def nth_append)
  have vall: "vals ?h2 (xs @ [t, ?new]) = vals ?h (xs @ [t]) @ [v]"
    using vx vt by (simp add: vals_def)
  have ap: "Append (Some s) v =
      Inr \<lparr>nodes = ?h2, lst = (lst s)\<lparr>tail := Some ?new, lengthF := lengthF (lst s) + 1\<rparr>\<rparr>"
    using tl by (simp add: Append_def alloc_def Let_def)
  have "rep \<lparr>nodes = ?h2, lst = (lst s)\<lparr>tail := Some ?new, lengthF := lengthF (lst s) + 1\<rparr>\<rparr>
          (xs @ [t, ?new])"
    using c2 assms snoc by (simp add: rep_def)
  with ap vall snoc show ?thesis by simp
qed

lemma DeleteHead_rep:
  assumes "rep s (a # as)"
  shows "\<exists>s'. DeleteHead (Some s) unset = Inr (s', node_value (nodes s ! a), True) \<and>
           rep s' as \<and> nodes s' = nodes s \<and> lengthF (lst s') = lengthF (lst s) - 1"
  using assms
  by (cases as) (auto simp: DeleteHead_def Let_def rep_def)

lemma DeleteTail_rep:
  assumes "rep s (xs @ [t])"
  shows "\<exists>s'. DeleteTail (Some s) unset = Some (Inr (s', node_value (nodes s ! t), True)) \<and>
           rep s' xs \<and> vals (nodes s') xs = vals (nodes s) xs \<and>
           lengthF (lst s') = lengthF (lst s) - 1"
proof -
  let ?h = "nodes s"
  from assms have tl: "tail (lst s) = Some t" by (simp add: rep_def)
  from assms have ch: "chain ?h (head (lst s)) (xs @ [t])" by (simp add: rep_def)
  then have d: "distinct (xs @ [t])" by (rule chain_distinct)
  from ch have px: "path ?h (head (lst s)) xs (Some t)" and nt: "node_next (?h ! t) = None"
    by (auto simp: path_append)
  from px nt have loop:
    "DeleteTail_loop ?h (Some t) None (head (lst s)) = Some (if xs = [] then None else Some (last xs))"
    by (rule DeleteTail_loop_path)
  show ?thesis
  proof (cases xs rule: rev_cases)
    case Nil
    with assms tl loop show ?thesis
      by (simp add: DeleteTail_def Let_def rep_def)
  next
    case (snoc ys p)
    let ?h1 = "?h[p := (?h ! p)\<lparr>node_next := None\<rparr>]"
    from px snoc have py: "path ?h (head (lst s)) ys (Some p)" and pv: "p < length ?h"
      by (auto simp: path_append)
    from d snoc have "p \<notin> set ys" by simp
    with py have "path ?h1 (head (lst s)) ys (Some p)" by (simp add: path_update)
    moreover have "path ?h1 (Some p) [p] None" using pv by simp
    ultimately have c1: "chain ?h1 (head (lst s)) (ys @ [p])" by (auto simp: path_append)
    have v1: "vals ?h1 (ys @ [p]) = vals ?h (ys @ [p])"
      using pv by (simp add: vals_def map_update nth_list_update)
    have dt: "DeleteTail (Some s) unset =
        Some (Inr (\<lparr>nodes = ?h1, lst = (lst s)\<lparr>tail := Some p, lengthF := lengthF (lst s) - 1\<rparr>\<rparr>,
                   node_value (?h ! t), True))"
      using tl loop snoc by (simp add: DeleteTail_def Let_def)
    have "rep \<lparr>nodes = ?h1, lst = (lst s)\<lparr>tail := Some p, lengthF := lengthF (lst s) - 1\<rparr>\<rparr> (ys @ [p])"
      using c1 assms snoc by (simp add: rep_def)
    with dt v1 snoc show ?thesis by simp
  qed
qed

lemma Delete_absent:
  assumes "rep s as" and "v \<notin> set (vals (nodes s) as)"
  shows "Delete (Some s) v = Some (Inr (s, False))"
proof -
  from assms have "findParent_loop (nodes s) v None (head (lst s)) = Some (None, None)"
    by (intro findParent_loop_absent [where as = as]) (simp_all add: rep_def)
  then show ?thesis by (simp add: Delete_def findParent_def)
qed

lemma Delete_rep:
  assumes r: "rep s (xs @ f # ys)"
    and nx: "v \<notin> set (vals (nodes s) xs)"
    and vf: "node_value (nodes s ! f) = v"
  shows "\<exists>s'. Delete (Some s) v = Some (Inr (s', True)) \<and> rep s' (xs @ ys) \<and>
           vals (nodes s') (xs @ ys) = vals (nodes s) xs @ vals (nodes s) ys \<and>
           lengthF (lst s') = lengthF (lst s) - 1"
proof -
  let ?h = "nodes s"
  let ?l = "lst s"
  from r have ch: "chain ?h (head ?l) (xs @ f # ys)" by (simp add: rep_def)
  then have d: "distinct (xs @ f # ys)" by (rule chain_distinct)
  from ch have px: "path ?h (head ?l) xs (Some f)"
    and fv: "f < length ?h"
    and cy: "chain ?h (node_next (?h ! f)) ys"
    by (auto simp: path_append)
  from r have len: "int (length xs) + 1 + int (length ys) = lengthF ?l" by (simp add: rep_def)
  from r have tl: "tail ?l = Some (if ys = [] then f else last ys)" by (simp add: rep_def)
  from d have tlf: "(tail ?l = Some f) = (ys = [])"
    unfolding tl by (cases ys rule: rev_cases) auto
  from px nx vf have fp:
    "findParent (Some s) v = Some (if xs = [] then None else Some (last xs), Some f)"
    by (simp add: findParent_def findParent_loop_found)
  show ?thesis
  proof (cases xs rule: rev_cases)
    case Nil
    with px have hd: "head ?l = Some f" by simp
    let ?l3 = "(if ys = [] then ?l\<lparr>head := node_next (?h ! f), tail := None\<rparr>
                else ?l\<lparr>head := node_next (?h ! f)\<rparr>)\<lparr>lengthF := lengthF ?l - 1\<rparr>"
    have del: "Delete (Some s) v = Some (Inr (\<lparr>nodes = ?h, lst = ?l3\<rparr>, True))"
      using fp Nil hd tlf by (simp add: Delete_def Let_def)
    have "rep \<lparr>nodes = ?h, lst = ?l3\<rparr> ys"
      using cy len tl Nil by (cases ys) (auto simp: rep_def)
    with del Nil show ?thesis by (auto simp: vals_def)
  next
    case (snoc zs p)
    let ?h1 = "?h[p := (?h ! p)\<lparr>node_next := node_next (?h ! f)\<rparr>]"
    let ?l3 = "(if ys = [] then ?l\<lparr>tail := Some p\<rparr> else ?l)\<lparr>lengthF := lengthF ?l - 1\<rparr>"
    from px snoc have pz: "path ?h (head ?l) zs (Some p)" and pv: "p < length ?h"
      by (auto simp: path_append)
    from d snoc have pf: "p \<noteq> f" and pzs: "p \<notin> set zs" and pys: "p \<notin> set ys"
      and fzs: "f \<notin> set zs"
      by auto
    from px snoc fzs pf have hd: "head ?l \<noteq> Some f"
      by (cases zs) auto
    have del: "Delete (Some s) v = Some (Inr (\<lparr>nodes = ?h1, lst = ?l3\<rparr>, True))"
      using fp snoc hd tlf by (simp add: Delete_def Let_def)
    from pz pzs have "path ?h1 (head ?l) zs (Some p)" by (simp add: path_update)
    moreover from cy pys have "chain ?h1 (node_next (?h ! f)) ys" by (simp add: path_update)
    then have "path ?h1 (Some p) (p # ys) None" using pv by simp
    ultimately have c1: "chain ?h1 (head ?l) (zs @ p # ys)" by (auto simp: path_append)
    have rp: "rep \<lparr>nodes = ?h1, lst = ?l3\<rparr> (xs @ ys)"
      using c1 len tl snoc by (cases ys) (auto simp: rep_def)
    have "vals ?h1 (zs @ p # ys) = vals ?h (zs @ [p]) @ vals ?h ys"
      using pv by (simp add: vals_def map_update nth_list_update)
    with del rp snoc show ?thesis by simp
  qed
qed

lemma rep_NewList: "rep (NewList h) []"
  by (simp add: rep_def NewList_def)

lemma step_rep:
  assumes "rep s as"
  shows "\<exists>s' as'. step unset s op = Some s' \<and> rep s' as'"
proof (cases op)
  case (OpInsert v)
  from Insert_rep [OF assms, of v] obtain s'
    where "Insert (Some s) v = Inr s'" and "rep s' (length (nodes s) # as)" by blast
  with OpInsert show ?thesis by (auto simp: step_def)
next
  case (OpAppend v)
  from Append_rep [OF assms, of v] obtain s'
    where "Append (Some s) v = Inr s'" and "rep s' (as @ [length (nodes s)])" by blast
  with OpAppend show ?thesis by (auto simp: step_def)
next
  case (OpDelete v)
  show ?thesis
  proof (cases "\<exists>a\<in>set as. node_value (nodes s ! a) = v")
    case True
    then obtain xs f ys where as: "as = xs @ f # ys" and vf: "node_value (nodes s ! f) = v"
      and nx: "\<forall>a\<in>set xs. node_value (nodes s ! a) \<noteq> v"
      by (auto dest!: split_list_first_prop)
    from nx have "v \<notin> set (vals (nodes s) xs)" by (auto simp: vals_def)
    with assms as vf obtain s' where "Delete (Some s) v = Some (Inr (s', True))"
      and "rep s' (xs @ ys)"
      using Delete_rep [of s xs f ys v] by blast
    with OpDelete show ?thesis by (auto simp: step_def)
  next
    case False
    then have "v \<notin> set (vals (nodes s) as)" by (auto simp: vals_def)
    with assms have "Delete (Some s) v = Some (Inr (s, False))" by (rule Delete_absent)
    with OpDelete assms show ?thesis by (auto simp: step_def)
  qed
next
  case OpDeleteHead
  show ?thesis
  proof (cases as)
    case Nil
    with assms have "head (lst s) = None" by (simp add: rep_def)
    then have "DeleteHead (Some s) unset = Inr (s, unset, False)"
      by (simp add: DeleteHead_def Let_def)
    with OpDeleteHead assms show ?thesis by (auto simp: step_def)
  next
    case (Cons a bs)
    with assms obtain s' where "DeleteHead (Some s) unset = Inr (s', node_value (nodes s ! a), True)"
      and "rep s' bs"
      using DeleteHead_rep [of s a bs unset] by blast
    with OpDeleteHead show ?thesis by (auto simp: step_def)
  qed
next
  case OpDeleteTail
  show ?thesis
  proof (cases as rule: rev_cases)
    case Nil
    with assms have "tail (lst s) = None" by (simp add: rep_def)
    then have "DeleteTail (Some s) unset = Some (Inr (s, unset, False))"
      by (simp add: DeleteTail_def Let_def)
    with OpDeleteTail assms show ?thesis by (auto simp: step_def)
  next
    case (snoc bs t)
    with assms obtain s' where
      "DeleteTail (Some s) unset = Some (Inr (s', node_value (nodes s ! t), True))" and "rep s' bs"
      using DeleteTail_rep [of s bs t unset] by blast
    with OpDeleteTail show ?thesis by (auto simp: step_def)
  qed
qed

lemma run_rep:
  "rep s as \<Longrightarrow> \<exists>s' as'. run unset s ops = Some s' \<and> rep s' as'"
proof (induction ops arbitrary: s as)
  case Nil
  then show ?case by auto
next
  case (Cons op ops)
  from step_rep [OF Cons.prems, of unset op] obtain s1 as1
    where st: "step unset s op = Some s1" and r1: "rep s1 as1" by blast
  from Cons.IH [OF r1] st show ?case by simp
qed

text \<open>
  Claim C3. Start from the empty list and run any sequence of Insert, Append, Delete,
  DeleteHead and DeleteTail calls. Every call returns, and after each one (that is, for
  every prefix of the sequence) the invariants hold: the walk from head reaches nil after
  exactly length steps, having visited length distinct cells, the last of which is tail,
  and head is nil iff length is 0 iff tail is nil.
\<close>

theorem invariant_preservation:
  "\<forall>n\<le>length ops. \<exists>s. run unset (NewList h) (take n ops) = Some s \<and> invariant s"
proof (intro allI impI)
  fix n
  from run_rep [OF rep_NewList, of unset h "take n ops"]
  show "\<exists>s. run unset (NewList h) (take n ops) = Some s \<and> invariant s"
    by (auto simp: invariant_rep)
qed

theorem invariant_preservation_witness:
  "5 \<le> length [OpInsert 4, OpInsert 3, OpAppend 5, OpDelete 4, OpDeleteTail :: nat operation] \<and>
   run (0::nat) (NewList []) [OpInsert 4, OpInsert 3, OpAppend 5, OpDelete 4, OpDeleteTail] =
     Some \<lparr>nodes = [\<lparr>node_value = 4, node_next = Some 2\<rparr>,
                    \<lparr>node_value = 3, node_next = None\<rparr>,
                    \<lparr>node_value = 5, node_next = None\<rparr>],
           lst = \<lparr>head = Some 1, tail = Some 1, lengthF = 1\<rparr>\<rparr> \<and>
   invariant \<lparr>nodes = [\<lparr>node_value = 4::nat, node_next = Some 2\<rparr>,
                       \<lparr>node_value = 3, node_next = None\<rparr>,
                       \<lparr>node_value = 5, node_next = None\<rparr>],
              lst = \<lparr>head = Some 1, tail = Some 1, lengthF = 1\<rparr>\<rparr>"
proof -
  let ?ops = "[OpInsert 4, OpInsert 3, OpAppend 5, OpDelete 4, OpDeleteTail :: nat operation]"
  have len: "5 \<le> length ?ops" by simp
  have ev: "run (0::nat) (NewList []) ?ops =
     Some \<lparr>nodes = [\<lparr>node_value = 4, node_next = Some 2\<rparr>,
                    \<lparr>node_value = 3, node_next = None\<rparr>,
                    \<lparr>node_value = 5, node_next = None\<rparr>],
           lst = \<lparr>head = Some 1, tail = Some 1, lengthF = 1\<rparr>\<rparr>"
    by (simp add: step_def Insert_def Append_def Delete_def DeleteTail_def findParent_def
        alloc_def NewList_def Let_def findParent_loop.simps DeleteTail_loop.simps)
  from invariant_preservation [of ?ops "0::nat" "[]", rule_format, OF len] ev len
  show ?thesis by simp
qed






lemma Insert_all_rep:
  "rep s as \<Longrightarrow>
   \<exists>s' as'. Insert_all s vs = Inr s' \<and> rep s' as' \<and>
     vals (nodes s') as' = rev vs @ vals (nodes s) as"
proof (induction vs arbitrary: s as)
  case Nil
  then show ?case by auto
next
  case (Cons v vs)
  from Insert_rep [OF Cons.prems, of v] obtain s1
    where i: "Insert (Some s) v = Inr s1" and r1: "rep s1 (length (nodes s) # as)"
      and v1: "vals (nodes s1) (length (nodes s) # as) = v # vals (nodes s) as"
    by blast
  from Cons.IH [OF r1] i v1 show ?case by auto
qed

lemma Append_all_rep:
  "rep s as \<Longrightarrow>
   \<exists>s' as'. Append_all s vs = Inr s' \<and> rep s' as' \<and>
     vals (nodes s') as' = vals (nodes s) as @ vs"
proof (induction vs arbitrary: s as)
  case Nil
  then show ?case by auto
next
  case (Cons v vs)
  from Append_rep [OF Cons.prems, of v] obtain s1
    where i: "Append (Some s) v = Inr s1" and r1: "rep s1 (as @ [length (nodes s)])"
      and v1: "vals (nodes s1) (as @ [length (nodes s)]) = vals (nodes s) as @ [v]"
    by blast
  from Cons.IH [OF r1] i v1 show ?case by auto
qed

text \<open>
  Claim C5. From the empty list, Insert(v1), ..., Insert(vn) in this order leave the
  traversal vn, ..., v1, and Append(v1), ..., Append(vn) leave the traversal v1, ..., vn;
  none of the calls returns an error.
\<close>

theorem Insert_order_Append_order:
  "(\<exists>s. Insert_all (NewList h) vs = Inr s \<and> traversal s = Some (rev vs)) \<and>
   (\<exists>s. Append_all (NewList h) vs = Inr s \<and> traversal s = Some vs)"
proof
  from Insert_all_rep [OF rep_NewList, of h vs] obtain s as
    where "Insert_all (NewList h) vs = Inr s" and "rep s as"
      and "vals (nodes s) as = rev vs @ vals (nodes (NewList h)) []"
    by blast
  then show "\<exists>s. Insert_all (NewList h) vs = Inr s \<and> traversal s = Some (rev vs)"
    by (auto simp: traversal_rep vals_def)
next
  from Append_all_rep [OF rep_NewList, of h vs] obtain s as
    where "Append_all (NewList h) vs = Inr s" and "rep s as"
      and "vals (nodes s) as = vals (nodes (NewList h)) [] @ vs"
    by blast
  then show "\<exists>s. Append_all (NewList h) vs = Inr s \<and> traversal s = Some vs"
    by (auto simp: traversal_rep vals_def)
qed

theorem Insert_order_Append_order_witness:
  "(\<exists>s. Insert_all (NewList []) [4, 3, 2, 1 :: nat] = Inr s \<and> traversal s = Some [1, 2, 3, 4]) \<and>
   (\<exists>s. Append_all (NewList []) [4, 3, 2, 1 :: nat] = Inr s \<and> traversal s = Some [4, 3, 2, 1])"
  using Insert_order_Append_order [of "[]" "[4, 3, 2, 1 :: nat]"] by simp







text \<open>
  Claim C10. The accessors are defined on nil: Head and Tail of a nil list are nil, Value
  of a nil node is the zero value and false, Next of a nil node is nil. On a present list
  and a present node they read the field, so a walk with Head, Next and Value meets no
  panic.
\<close>

theorem accessors_total:
  "Head None = None \<and> Tail None = None \<and>
   Value h unset None = (unset, False) \<and> Next h None = None \<and>
   Head (Some s) = head (lst s) \<and> Tail (Some s) = tail (lst s) \<and>
   Value h unset (Some a) = (node_value (h ! a), True) \<and>
   Next h (Some a) = node_next (h ! a)"
  by (simp add: Head_def Tail_def Value_def Next_def)


lemma ForEach_empty: "head (lst s) = None \<Longrightarrow> ForEach (Some s) f acc = Some (Inr acc)"
  by (simp add: ForEach_def ForEach_loop.simps)

lemma ForEach_nonempty: "head (lst s) = Some c \<Longrightarrow> ForEach (Some s) f acc = None"
  by (simp add: ForEach_def ForEach_loop_diverges)

text \<open>
  Claim C1 says that ForEach calls the visitor once per element, in order, and returns
  after the last one. The loop of ForEach never advances \<open>currentNode\<close>: on the list
  built by \<open>NewList\<close> and \<open>Insert(1)\<close> it calls the visitor on the head again and again
  and does not return, whatever the visitor state; only on the empty list does it return.
\<close>

theorem ForEach_one_element_never_returns:
  "Insert (Some (NewList [])) (1::nat) =
     Inr \<lparr>nodes = [\<lparr>node_value = 1, node_next = None\<rparr>],
          lst = \<lparr>head = Some 0, tail = Some 0, lengthF = 1\<rparr>\<rparr> \<and>
   ForEach (Some \<lparr>nodes = [\<lparr>node_value = 1::nat, node_next = None\<rparr>],
                  lst = \<lparr>head = Some 0, tail = Some 0, lengthF = 1\<rparr>\<rparr>)
     (\<lambda>v visited. visited @ [v]) [] = None"
  by (simp add: Insert_def NewList_def alloc_def ForEach_nonempty)

lemma Find_present:
  assumes "rep s as"
  shows "Find (Some s) v = Some (Inr (find (\<lambda>a. node_value (nodes s ! a) = v) as))"
proof (cases "\<exists>a\<in>set as. node_value (nodes s ! a) = v")
  case True
  then obtain xs f ys where as: "as = xs @ f # ys" and vf: "node_value (nodes s ! f) = v"
    and nx: "\<forall>a\<in>set xs. node_value (nodes s ! a) \<noteq> v"
    by (auto dest!: split_list_first_prop)
  from assms as have "path (nodes s) (head (lst s)) xs (Some f)"
    by (auto simp: rep_def path_append)
  moreover from nx have "v \<notin> set (vals (nodes s) xs)" by (auto simp: vals_def)
  ultimately have "findParent (Some s) v = Some (if xs = [] then None else Some (last xs), Some f)"
    using vf by (simp add: findParent_def findParent_loop_found)
  moreover from nx vf have "find (\<lambda>a. node_value (nodes s ! a) = v) (xs @ f # ys) = Some f"
    by (induction xs) auto
  ultimately show ?thesis by (simp add: Find_def as)
next
  case False
  then have "v \<notin> set (vals (nodes s) as)" by (auto simp: vals_def)
  with assms have "findParent (Some s) v = Some (None, None)"
    using findParent_loop_absent [of "nodes s" "head (lst s)" as v None]
    by (simp add: findParent_def rep_def)
  moreover from False have "find (\<lambda>a. node_value (nodes s ! a) = v) as = None"
    by (simp add: find_None_iff)
  ultimately show ?thesis by (simp add: Find_def)
qed

text \<open>
  Claim C2 says that Find returns the first matching node, and nil when nothing matches,
  when the list is empty or when the receiver is nil. On a present list this is what Find
  does (\<open>Find_present\<close>). On a nil receiver Find reads \<open>list.mux\<close> before it calls
  \<open>findParent\<close>, whose own nil check is therefore never reached: the call panics with a
  nil pointer dereference.
\<close>

theorem Find_nil_receiver_panics:
  "Find (None :: nat state option) 1 = Some (Inl nil_dereference) \<and>
   findParent (None :: nat state option) 1 = Some (None, None)"
  by (simp add: Find_def findParent_def)

end
